theory Spec2Isabelle
  imports Complex_Main "HOL-Library.AList" "HOL-Library.Log_Nat" "HOL-Library.Multiset"
begin

section \<open>Errors and results\<close>

text \<open>
  The Python exceptions the bot can raise. A function that may raise returns
  \<open>error + 'a\<close>, with \<open>Inl\<close> for the exception; \<open>and_then\<close> sequences two steps and
  stops at the first exception.
\<close>

datatype error =
  KeyError | IndexError | ValueError | ZeroDivisionError | OverflowError | UnboundLocalError

definition and_then :: "error + 'a \<Rightarrow> ('a \<Rightarrow> error + 'b) \<Rightarrow> error + 'b" where
  "and_then m f = (case m of Inl e \<Rightarrow> Inl e | Inr x \<Rightarrow> f x)"

text \<open>\<open>xs[i]\<close> for a non-negative literal index: IndexError past the end.\<close>

definition index :: "'a list \<Rightarrow> nat \<Rightarrow> error + 'a" where
  "index xs i = (if i < length xs then Inr (xs ! i) else Inl IndexError)"

text \<open>A list comprehension whose body may raise: the first exception wins.\<close>

fun map_result :: "('a \<Rightarrow> error + 'b) \<Rightarrow> 'a list \<Rightarrow> error + 'b list" where
  "map_result f [] = Inr []"
| "map_result f (x # xs) =
     and_then (f x) (\<lambda>y. and_then (map_result f xs) (\<lambda>ys. Inr (y # ys)))"

section \<open>Card utilities (both source files, section 1)\<close>

definition RANKS :: string where
  "RANKS = ''23456789TJQKA''"

text \<open>\<open>RANK_VALUE = {r: i + 2 for i, r in enumerate(RANKS)}\<close>\<close>

definition RANK_VALUE :: "char \<rightharpoonup> int" where
  "RANK_VALUE = map_of (zip RANKS (map (\<lambda>i. int i + 2) [0..<length RANKS]))"

text \<open>
  \<open>parse_card\<close>: \<open>card_str[0]\<close> raises IndexError on the empty string, the lookup in
  \<open>RANK_VALUE\<close> raises KeyError on an unknown rank symbol, and \<open>card_str[1]\<close> raises
  IndexError on a one-character string. The suit is passed through unchecked.
\<close>

definition parse_card :: "string \<Rightarrow> error + (int \<times> char)" where
  "parse_card card_str =
     and_then (index card_str 0) (\<lambda>r.
       and_then (case RANK_VALUE r of None \<Rightarrow> Inl KeyError | Some v \<Rightarrow> Inr v) (\<lambda>v.
         and_then (index card_str 1) (\<lambda>s. Inr (v, s))))"

text \<open>
  \<open>is_straight_3\<close>: the ranks are sorted; \<open>r[0] + 1 == r[1] and r[1] + 1 == r[2]\<close>
  is evaluated left to right with a short-circuit \<open>and\<close>, so \<open>r[2]\<close> is read only when
  the first comparison holds. The wheel test compares the set of the ranks with
  \<open>{14, 2, 3}\<close>.
\<close>

definition is_straight_3 :: "int list \<Rightarrow> error + (bool \<times> int)" where
  "is_straight_3 rank_values =
     (let r = sort rank_values;
          wheel = (if set r = {14, 2, 3} then Inr (True, 3) else Inr (False, 0))
      in and_then (index r 0) (\<lambda>r0.
           and_then (index r 1) (\<lambda>r1.
             if r0 + 1 = r1
             then and_then (index r 2) (\<lambda>r2.
                    if r1 + 1 = r2 then and_then (index r 2) (\<lambda>hi. Inr (True, hi))
                    else wheel)
             else wheel)))"

section \<open>Hand category (both source files, section 2)\<close>

text \<open>
  The histogram \<open>counts\<close> is a Python dict: an association list in insertion order,
  \<open>counts.get(v, 0)\<close> is \<open>dict_get\<close> and the assignment \<open>counts[v] = ...\<close> is
  \<open>AList.update\<close>.
\<close>

definition dict_get :: "('k \<times> 'v) list \<Rightarrow> 'k \<Rightarrow> 'v \<Rightarrow> 'v" where
  "dict_get d k dflt = (case map_of d k of None \<Rightarrow> dflt | Some v \<Rightarrow> v)"

definition rank_counts :: "int list \<Rightarrow> (int \<times> int) list" where
  "rank_counts rank_values =
     foldl (\<lambda>counts v. AList.update v (dict_get counts v 0 + 1) counts) [] rank_values"

definition hand_category :: "string list \<Rightarrow> string \<Rightarrow> error + int" where
  "hand_category hole table =
     (let cards = hole @ [table] in
      and_then (map_result parse_card cards) (\<lambda>parsed.
        let rank_values = map fst parsed;
            suits = map snd parsed;
            flush = (card (set suits) = 1);
            counts = rank_counts rank_values
        in and_then (is_straight_3 rank_values) (\<lambda>(straight, _).
             if straight \<and> flush then Inr 5
             else if 3 \<in> set (map snd counts) then Inr 4
             else if straight then Inr 3
             else if flush then Inr 2
             else if 2 \<in> set (map snd counts) then Inr 1
             else Inr 0)))"

section \<open>Python floats\<close>

text \<open>
  A finite Python float is an IEEE 754 binary64 value, modelled as the rational it
  denotes. Every arithmetic operation returns the exact result rounded to the nearest
  binary64 value, ties to even: \<open>fl\<close>. The significand has 53 bits, so the spacing of
  the values around \<open>x\<close> is \<open>2 ^ (e - 52)\<close> for \<open>e = \<lfloor>log\<^sub>2 \<bar>x\<bar>\<rfloor>\<close>, and \<open>e\<close> is
  never taken below \<open>-1022\<close> (subnormal values). Negative zero is not distinguished
  from zero; no comparison of the program tells them apart.
\<close>

type_synonym pyfloat = rat

definition ilog2 :: "rat \<Rightarrow> int" where
  "ilog2 x = (let (p, q) = quotient_of x; e = bitlen p - bitlen q
              in if 2 powi e \<le> x then e else e - 1)"

definition round_half_even :: "rat \<Rightarrow> int" where
  "round_half_even y =
     (let f = \<lfloor>y\<rfloor>; d = y - of_int f
      in if d < 1 / 2 then f else if 1 / 2 < d then f + 1 else if even f then f else f + 1)"

definition fl :: "rat \<Rightarrow> pyfloat" where
  "fl x = (if x = 0 then 0
           else let e = max (ilog2 \<bar>x\<bar>) (- 1022); q = 2 powi (e - 52)
                in of_int (round_half_even (x / q)) * q)"

text \<open>
  \<open>a / b\<close> on two Python ints: ZeroDivisionError for \<open>b = 0\<close>, OverflowError when the
  rounded quotient is not a finite float, the correctly rounded quotient otherwise.
\<close>

definition truediv :: "int \<Rightarrow> int \<Rightarrow> error + pyfloat" where
  "truediv a b =
     (if b = 0 then Inl ZeroDivisionError
      else if 2 ^ 1024 \<le> \<bar>fl (of_int a / of_int b)\<bar> then Inl OverflowError
      else Inr (fl (of_int a / of_int b)))"

text \<open>
  Float addition, subtraction and multiplication, and a decimal literal. They return
  the finite result; a result of magnitude \<open>2 ^ 1024\<close> or more (Python's \<open>inf\<close>) does
  not arise from the operands of this program when the opponent counts are
  non-negative, as every rate and probability then lies between \<open>-1\<close> and \<open>1\<close>.
\<close>

definition fadd :: "pyfloat \<Rightarrow> pyfloat \<Rightarrow> pyfloat" where
  "fadd x y = fl (x + y)"

definition fsub :: "pyfloat \<Rightarrow> pyfloat \<Rightarrow> pyfloat" where
  "fsub x y = fl (x - y)"

definition fmul :: "pyfloat \<Rightarrow> pyfloat \<Rightarrow> pyfloat" where
  "fmul x y = fl (x * y)"

definition lit :: "rat \<Rightarrow> pyfloat" where
  "lit d = fl d"

section \<open>Monte Carlo simulation (250103009.py, section 4)\<close>

definition SUITS :: string where
  "SUITS = ''CDHS''"

text \<open>\<open>deck = [r + s for r in RANKS for s in SUITS]\<close>\<close>

definition deck :: "string list" where
  "deck = concat (map (\<lambda>r. map (\<lambda>s. [r, s]) SUITS) RANKS)"

text \<open>
  The random source. \<open>random.sample(population, 2)\<close> raises ValueError when the
  population has fewer than two elements and otherwise returns the elements at two
  distinct positions, in the order drawn. The source of randomness is a parameter: for
  the trial number it gives two naturals, the first picks a position of the population
  and the second a position of what remains once the first element is taken out, so
  every ordered pair of distinct positions can be drawn and nothing else.
\<close>

type_synonym random_source = "nat \<Rightarrow> nat \<times> nat"

definition sample_2 :: "'a list \<Rightarrow> nat \<times> nat \<Rightarrow> error + 'a list" where
  "sample_2 population draw =
     (if length population < 2 then Inl ValueError
      else let i = fst draw mod length population;
               rest = take i population @ drop (Suc i) population;
               j = snd draw mod length rest
           in Inr [population ! i, rest ! j])"

text \<open>One pass of the loop body: the state is the pair \<open>(wins, ties)\<close>.\<close>

definition trial :: "int \<Rightarrow> string list \<Rightarrow> string \<Rightarrow> nat \<times> nat \<Rightarrow> int \<times> int \<Rightarrow> error + (int \<times> int)" where
  "trial my_category available_deck table draw counters =
     and_then (sample_2 available_deck draw) (\<lambda>opp_hole.
       and_then (hand_category opp_hole table) (\<lambda>opp_category.
         let (wins, ties) = counters
         in if my_category > opp_category then Inr (wins + 1, ties)
            else if my_category = opp_category then Inr (wins, ties + 1)
            else Inr (wins, ties)))"

fun run_trials :: "int \<Rightarrow> string list \<Rightarrow> string \<Rightarrow> (nat \<times> nat) list \<Rightarrow> int \<times> int \<Rightarrow> error + (int \<times> int)" where
  "run_trials my_category available_deck table [] counters = Inr counters"
| "run_trials my_category available_deck table (draw # draws) counters =
     and_then (trial my_category available_deck table draw counters)
       (run_trials my_category available_deck table draws)"

text \<open>
  \<open>monte_carlo_sim\<close>: \<open>range(n_simulations)\<close> is empty for a non-positive count. The
  returned tuple is \<open>prob_win, prob_lose, prob_tie\<close>, in the order of the source's
  \<open>return\<close> statement.
\<close>

definition monte_carlo_sim :: "string list \<Rightarrow> string \<Rightarrow> int \<Rightarrow> random_source \<Rightarrow> error + (pyfloat \<times> pyfloat \<times> pyfloat)" where
  "monte_carlo_sim hole table n_simulations rng =
     and_then (hand_category hole table) (\<lambda>my_category.
       let known_cards = hole @ [table];
           available_deck = filter (\<lambda>c. c \<notin> set known_cards) deck
       in and_then (run_trials my_category available_deck table
                      (map rng [0..<nat n_simulations]) (0, 0)) (\<lambda>(wins, ties).
            and_then (truediv wins n_simulations) (\<lambda>prob_win.
              and_then (truediv ties n_simulations) (\<lambda>prob_tie.
                let prob_lose = fsub (fsub 1 prob_win) prob_tie
                in Inr (prob_win, prob_lose, prob_tie)))))"

section \<open>The round state\<close>

text \<open>
  The state is the JSON object handed to \<open>decide_action\<close>: a field is \<open>None\<close> when the
  key is absent. \<open>opponent_stats\<close> is a dict with the keys \<open>fold\<close>, \<open>call\<close> and
  \<open>raise\<close>; \<open>round_num\<close> is the key \<open>round\<close>.
\<close>

record opp_stats =
  opp_fold :: int
  opp_call :: int
  opp_raise :: int

record state =
  your_hole :: "string list option"
  table_card :: "string option"
  opponent_stats :: "opp_stats option"
  round_num :: "int option"
  rules :: "string option"

text \<open>\<open>state[key]\<close>: KeyError when the key is absent.\<close>

definition subscript :: "'a option \<Rightarrow> error + 'a" where
  "subscript field = (case field of None \<Rightarrow> Inl KeyError | Some v \<Rightarrow> Inr v)"

text \<open>\<open>state.get("opponent_stats") or {"fold": 0, "call": 0, "raise": 0}\<close>\<close>

definition stats_or_default :: "state \<Rightarrow> opp_stats" where
  "stats_or_default state =
     (case opponent_stats state of
        None \<Rightarrow> \<lparr>opp_fold = 0, opp_call = 0, opp_raise = 0\<rparr>
      | Some opp \<Rightarrow> opp)"

section \<open>The EV policy (250103009.py, section 5)\<close>

text \<open>
  Lines 248 to 255: the opponent rates. \<open>opp_call_rate\<close> is assigned in the
  \<open>else\<close> branch only, so after the \<open>if\<close> branch the local variable is unbound:
  \<open>None\<close>.
\<close>

definition opponent_rates :: "opp_stats \<Rightarrow> error + (pyfloat \<times> pyfloat \<times> pyfloat option)" where
  "opponent_rates opp =
     (let total_opp_actions = opp_fold opp + opp_call opp + opp_raise opp
      in if total_opp_actions = 0 then Inr (lit (33 / 100), lit (33 / 100), None)
         else and_then (truediv (opp_fold opp) total_opp_actions) (\<lambda>opp_fold_rate.
                and_then (truediv (opp_raise opp) total_opp_actions) (\<lambda>opp_raise_rate.
                  Inr (opp_fold_rate, opp_raise_rate,
                       Some (fsub (fsub 1 opp_fold_rate) opp_raise_rate)))))"

text \<open>Reading a local variable: UnboundLocalError when it was never assigned.\<close>

definition load_local :: "'a option \<Rightarrow> error + 'a" where
  "load_local var = (case var of None \<Rightarrow> Inl UnboundLocalError | Some v \<Rightarrow> Inr v)"

text \<open>
  Lines 264 to 273. The operands are evaluated left to right; the only step that can
  raise is the read of \<open>opp_call_rate\<close>.
\<close>

definition ev_call_of :: "pyfloat \<Rightarrow> pyfloat option \<Rightarrow> pyfloat \<Rightarrow> pyfloat \<Rightarrow> pyfloat \<Rightarrow> error + pyfloat" where
  "ev_call_of opp_fold_rate opp_call_rate opp_raise_rate prob_win prob_lose =
     and_then (load_local opp_call_rate) (\<lambda>call_rate.
       Inr (fadd (fadd (fmul opp_fold_rate 2)
                       (fmul call_rate (fadd (fmul prob_win 2) (fmul prob_lose (- 2)))))
                 (fmul opp_raise_rate (fadd (fmul prob_win 2) (fmul prob_lose (- 3))))))"

definition ev_raise_of :: "pyfloat \<Rightarrow> pyfloat option \<Rightarrow> pyfloat \<Rightarrow> pyfloat \<Rightarrow> pyfloat \<Rightarrow> error + pyfloat" where
  "ev_raise_of opp_fold_rate opp_call_rate opp_raise_rate prob_win prob_lose =
     and_then (load_local opp_call_rate) (\<lambda>call_rate.
       Inr (fadd (fadd (fmul opp_fold_rate 3)
                       (fmul call_rate (fadd (fmul prob_win 3) (fmul prob_lose (- 2)))))
                 (fmul opp_raise_rate (fadd (fmul prob_win 3) (fmul prob_lose (- 3))))))"

text \<open>Lines 275 to 318: the decision tree over the category bands.\<close>

definition choose_action :: "int \<Rightarrow> pyfloat \<Rightarrow> pyfloat \<Rightarrow> pyfloat \<Rightarrow> pyfloat \<Rightarrow> pyfloat \<Rightarrow> pyfloat \<Rightarrow> string" where
  "choose_action category prob_win opp_fold_rate opp_raise_rate ev_fold ev_call ev_raise =
     (if category \<ge> 4 then
        (if ev_raise \<ge> ev_call \<or> prob_win > lit (85 / 100) then ''RAISE'' else ''CALL'')
      else if category = 3 then
        (if ev_raise \<ge> max ev_call ev_fold then ''RAISE''
         else if ev_call > ev_fold then ''CALL''
         else ''FOLD'')
      else if category = 2 then
        (if prob_win > lit (6 / 10) \<and> ev_raise > ev_call then ''RAISE''
         else if prob_win > lit (45 / 100) \<or> ev_call > 0 then ''CALL''
         else ''FOLD'')
      else if category = 1 then
        (if opp_raise_rate > lit (5 / 10) \<and> prob_win < lit (5 / 10) then
           (if ev_call > 0 then ''CALL'' else ''FOLD'')
         else if prob_win > lit (55 / 100) \<or> (ev_call > lit (5 / 10) \<and> opp_fold_rate > lit (4 / 10))
           then ''CALL''
         else if ev_fold \<ge> ev_call then ''FOLD''
         else ''CALL'')
      else if category = 0 then
        (if prob_win > lit (6 / 10) \<and> opp_fold_rate > lit (4 / 10) then ''CALL''
         else if ev_call > lit (3 / 10) then ''CALL''
         else ''FOLD'')
      else ''CALL'')"

text \<open>
  \<open>decide_action\<close> of 250103009.py. The tuple of the simulator is unpacked as
  \<open>prob_win, prob_tie, prob_lose\<close>; \<open>round_number\<close> is read with a default and never
  used; \<open>rules\<close> is never read.
\<close>

definition decide_action :: "state \<Rightarrow> random_source \<Rightarrow> error + string" where
  "decide_action state rng =
     and_then (subscript (your_hole state)) (\<lambda>hole.
       and_then (subscript (table_card state)) (\<lambda>table.
         let opp = stats_or_default state;
             round_number = (case round_num state of None \<Rightarrow> 1 | Some r \<Rightarrow> r)
         in and_then (opponent_rates opp) (\<lambda>(opp_fold_rate, opp_raise_rate, opp_call_rate).
              and_then (hand_category hole table) (\<lambda>category.
                and_then (monte_carlo_sim hole table 10000 rng) (\<lambda>(prob_win, prob_tie, prob_lose).
                  let ev_fold = - 1
                  in and_then (ev_call_of opp_fold_rate opp_call_rate opp_raise_rate prob_win prob_lose) (\<lambda>ev_call.
                       and_then (ev_raise_of opp_fold_rate opp_call_rate opp_raise_rate prob_win prob_lose) (\<lambda>ev_raise.
                         Inr (choose_action category prob_win opp_fold_rate opp_raise_rate
                                ev_fold ev_call ev_raise))))))))"

section \<open>The band heuristic (player\_template.py, section 4)\<close>

text \<open>
  \<open>decide_action\<close> of player\_template.py; the card utilities and \<open>hand_category\<close> of
  that file are the ones above, word for word.
\<close>

definition decide_action_template :: "state \<Rightarrow> error + string" where
  "decide_action_template state =
     and_then (subscript (your_hole state)) (\<lambda>hole.
       and_then (subscript (table_card state)) (\<lambda>table.
         let opp = stats_or_default state;
             round_number = (case round_num state of None \<Rightarrow> 1 | Some r \<Rightarrow> r)
         in and_then (hand_category hole table) (\<lambda>category.
              let total_opp_actions = opp_fold opp + opp_call opp + opp_raise opp
              in and_then (if total_opp_actions = 0 then Inr (0, 0)
                           else and_then (truediv (opp_fold opp) total_opp_actions) (\<lambda>opp_fold_rate.
                                  and_then (truediv (opp_raise opp) total_opp_actions) (\<lambda>opp_raise_rate.
                                    Inr (opp_fold_rate, opp_raise_rate))))
                   (\<lambda>(opp_fold_rate, opp_raise_rate).
                      let is_weak = (category = 0);
                          is_medium = (category = 1 \<or> category = 2);
                          is_strong = (category \<ge> 3);
                          HIGH_RAISE_RATE = lit (60 / 100);
                          HIGH_FOLD_RATE = lit (50 / 100)
                      in if is_strong then Inr ''RAISE''
                         else if is_medium then
                           (if opp_raise_rate > HIGH_RAISE_RATE then Inr ''CALL''
                            else if opp_fold_rate > HIGH_FOLD_RATE then Inr ''RAISE''
                            else Inr ''CALL'')
                         else if is_weak then
                           (if opp_raise_rate > HIGH_RAISE_RATE then Inr ''FOLD''
                            else Inr ''CALL'')
                         else Inr ''CALL''))))"

section \<open>The I/O adapter (250103009.py, section 6)\<close>

text \<open>
  \<open>main\<close> reads standard input and parses it as JSON; \<open>parsed\<close> is the outcome:
  \<open>None\<close> when the input is empty or does not parse, and \<open>state\<close> is then the
  empty dict. The result is the action written to standard output. An exception of
  \<open>decide_action\<close> is not caught.
\<close>

definition empty_state :: state where
  "empty_state = \<lparr>your_hole = None, table_card = None, opponent_stats = None,
                   round_num = None, rules = None\<rparr>"

text \<open>Lines 343 to 345: the safety check on the returned label.\<close>

definition safety_check :: "string \<Rightarrow> string" where
  "safety_check action = (if action \<notin> {''FOLD'', ''CALL'', ''RAISE''} then ''CALL'' else action)"

definition main :: "state option \<Rightarrow> random_source \<Rightarrow> error + string" where
  "main parsed rng =
     (let state = (case parsed of None \<Rightarrow> empty_state | Some st \<Rightarrow> st)
      in and_then (decide_action state rng) (\<lambda>action. Inr (safety_check action)))"

section \<open>The specification's reading of the classifier\<close>

text \<open>
  The card model and the category precedence as the specification words them, to be
  compared with \<open>parse_card\<close>, \<open>is_straight_3\<close> and \<open>hand_category\<close>: the rank of a
  token is the position of its first character in the low-to-high rank symbols plus 2,
  a straight is three consecutive sorted ranks or the multiset \<open>{14, 2, 3}\<close>, a flush
  is three identical suits.
\<close>

definition valid_card :: "string \<Rightarrow> bool" where
  "valid_card c = (length c = 2 \<and> c ! 0 \<in> set RANKS \<and> c ! 1 \<in> set SUITS)"

definition spec_rank :: "string \<Rightarrow> int" where
  "spec_rank token = int (length (takeWhile (\<lambda>r. r \<noteq> token ! 0) ''23456789TJQKA'')) + 2"

definition spec_suit :: "string \<Rightarrow> char" where
  "spec_suit token = token ! 1"

definition spec_is_straight :: "int list \<Rightarrow> bool" where
  "spec_is_straight ranks =
     (let r = sort ranks in (r ! 0 + 1 = r ! 1 \<and> r ! 1 + 1 = r ! 2) \<or> mset ranks = {#14, 2, 3#})"

definition spec_flush :: "char list \<Rightarrow> bool" where
  "spec_flush suits = (suits ! 0 = suits ! 1 \<and> suits ! 1 = suits ! 2)"

definition rank_appears :: "nat \<Rightarrow> int list \<Rightarrow> bool" where
  "rank_appears n ranks = list_ex (\<lambda>r. count_list ranks r = n) ranks"

definition spec_category :: "string list \<Rightarrow> int" where
  "spec_category cards =
     (let ranks = map spec_rank cards; suits = map spec_suit cards;
          straight = spec_is_straight ranks; flush = spec_flush suits
      in if straight \<and> flush then 5
         else if rank_appears 3 ranks then 4
         else if straight then 3
         else if flush then 2
         else if rank_appears 2 ranks then 1
         else 0)"

section \<open>Well-formed inputs\<close>

text \<open>
  The interface gives the opponent counts as non-negative integers; the statistics may be
  absent.
\<close>

definition nonneg_stats :: "state \<Rightarrow> bool" where
  "nonneg_stats state =
     (case opponent_stats state of
        None \<Rightarrow> True
      | Some opp \<Rightarrow> 0 \<le> opp_fold opp \<and> 0 \<le> opp_call opp \<and> 0 \<le> opp_raise opp)"

section \<open>Example inputs\<close>

text \<open>
  Random sources for the examples. With the hand \<open>AS KS\<close> and the table card \<open>QS\<close> the
  available deck holds \<open>TS\<close> at position 35 and \<open>JS\<close> at position 39: the draw
  \<open>(35, 38)\<close> gives the opponent \<open>TS JS\<close> (a straight flush, a tie), the draw
  \<open>(0, 0)\<close> gives \<open>2C 2D\<close> (a pair, a win).
\<close>

definition draws_one_win_one_tie :: random_source where
  "draws_one_win_one_tie k = (if k = 1 then (35, 38) else (0, 0))"

definition draws_nine_wins_one_tie :: random_source where
  "draws_nine_wins_one_tie k = (if k = 9 then (35, 38) else (0, 0))"

definition state_no_observations :: state where
  "state_no_observations = \<lparr>your_hole = Some [''AS'', ''KS''], table_card = Some ''QS'',
     opponent_stats = Some \<lparr>opp_fold = 0, opp_call = 0, opp_raise = 0\<rparr>,
     round_num = Some 1, rules = None\<rparr>"

definition state_pair_aggressive :: state where
  "state_pair_aggressive = \<lparr>your_hole = Some [''9C'', ''9D''], table_card = Some ''2H'',
     opponent_stats = Some \<lparr>opp_fold = 1, opp_call = 1, opp_raise = 8\<rparr>,
     round_num = Some 7, rules = None\<rparr>"

definition state_high_card_aggressive :: state where
  "state_high_card_aggressive = \<lparr>your_hole = Some [''AS'', ''2S''], table_card = Some ''9D'',
     opponent_stats = Some \<lparr>opp_fold = 1, opp_call = 1, opp_raise = 8\<rparr>,
     round_num = Some 7, rules = None\<rparr>"

definition state_round_1 :: state where
  "state_round_1 = \<lparr>your_hole = Some [''AS'', ''KS''], table_card = Some ''QS'',
     opponent_stats = Some \<lparr>opp_fold = 2, opp_call = 5, opp_raise = 3\<rparr>,
     round_num = Some 1, rules = None\<rparr>"

definition state_round_250 :: state where
  "state_round_250 = \<lparr>your_hole = Some [''AS'', ''KS''], table_card = Some ''QS'',
     opponent_stats = Some \<lparr>opp_fold = 2, opp_call = 5, opp_raise = 3\<rparr>,
     round_num = Some 250, rules = Some ''three-card''\<rparr>"

section \<open>Properties of the classifier\<close>

lemma and_then_Inr: "and_then (Inr x) f = f x"
  by (simp add: and_then_def)

lemma RANK_VALUE_table:
  "RANK_VALUE = map_of [(CHR ''2'', 2), (CHR ''3'', 3), (CHR ''4'', 4), (CHR ''5'', 5),
     (CHR ''6'', 6), (CHR ''7'', 7), (CHR ''8'', 8), (CHR ''9'', 9), (CHR ''T'', 10),
     (CHR ''J'', 11), (CHR ''Q'', 12), (CHR ''K'', 13), (CHR ''A'', 14)]"
  by (simp add: RANK_VALUE_def RANKS_def upt_rec)

lemma length3_ex: "length xs = 3 \<Longrightarrow> \<exists>a b c. xs = [a, b, c]"
  by (auto simp: eval_nat_numeral length_Suc_conv)

lemma straight_three:
  assumes "length rs = 3"
  shows "is_straight_3 rs =
     Inr (let r = sort rs in
          if r ! 0 + 1 = r ! 1 \<and> r ! 1 + 1 = r ! 2 then (True, r ! 2)
          else if set rs = {14,2,3} then (True, 3) else (False, 0))"
proof -
  have "length (sort rs) = 3" using assms by simp
  then obtain a b c where abc: "sort rs = [a, b, c]"
    using length3_ex by blast
  have "set rs = set [a, b, c]" using abc by (metis set_sort)
  then show ?thesis
    by (simp add: is_straight_3_def index_def and_then_def Let_def abc)
qed

lemma counts_three_3: "3 \<in> set (map snd (rank_counts [a, b, c])) \<longleftrightarrow> a = b \<and> b = c"
  by (auto simp: rank_counts_def dict_get_def)

lemma counts_three_2:
  "2 \<in> set (map snd (rank_counts [a, b, c])) \<longleftrightarrow> (a = b \<or> b = c \<or> a = c) \<and> \<not> (a = b \<and> b = c)"
  by (auto simp: rank_counts_def dict_get_def)

lemma flush_three: "card (set [s1, s2, s3]) = 1 \<longleftrightarrow> s1 = s2 \<and> s2 = s3"
  by (auto simp: card_insert_if)

lemma parse_card_valid:
  assumes "valid_card c"
  shows "parse_card c = Inr (spec_rank c, spec_suit c)"
proof -
  from assms obtain a b where c: "c = [a, b]"
    by (auto simp: valid_card_def eval_nat_numeral length_Suc_conv)
  from assms c have "a \<in> set RANKS" by (simp add: valid_card_def)
  then show ?thesis
    by (auto simp: c RANKS_def parse_card_def index_def and_then_def RANK_VALUE_table
        spec_rank_def spec_suit_def)
qed

lemma set3_wheel: "set [a, b, c] = {14, 2, 3::int} \<longleftrightarrow> mset [a, b, c] = {#14, 2, 3#}"
proof
  assume h: "set [a, b, c] = {14, 2, 3::int}"
  have "a \<in> set [a, b, c]" "b \<in> set [a, b, c]" "c \<in> set [a, b, c]" by simp_all
  then have abc: "a = 14 \<or> a = 2 \<or> a = 3" "b = 14 \<or> b = 2 \<or> b = 3" "c = 14 \<or> c = 2 \<or> c = 3"
    unfolding h by simp_all
  have "14 \<in> set [a, b, c]" "2 \<in> set [a, b, c]" "3 \<in> set [a, b, c]"
    unfolding h by simp_all
  then have m: "a = 14 \<or> b = 14 \<or> c = 14" "a = 2 \<or> b = 2 \<or> c = 2" "a = 3 \<or> b = 3 \<or> c = 3"
    by auto
  from abc(1) show "mset [a, b, c] = {#14, 2, 3#}"
  proof (elim disjE)
    assume "a = 14" with abc(2,3) m(2,3) show ?thesis
      by (elim disjE; simp add: add_mset_commute)
  next
    assume "a = 2" with abc(2,3) m(1,3) show ?thesis
      by (elim disjE; simp add: add_mset_commute)
  next
    assume "a = 3" with abc(2,3) m(1,2) show ?thesis
      by (elim disjE; simp add: add_mset_commute)
  qed
next
  assume h: "mset [a, b, c] = {#14, 2, 3#}"
  have "set_mset (mset [a, b, c]) = set_mset {#14, 2, 3#}" by (simp only: h)
  then show "set [a, b, c] = {14, 2, 3::int}" by simp
qed

lemma rank_appears_3: "rank_appears 3 [a, b, c] \<longleftrightarrow> a = b \<and> b = c"
  by (auto simp: rank_appears_def)

lemma rank_appears_2:
  "rank_appears 2 [a, b, c] \<longleftrightarrow> (a = b \<or> b = c \<or> a = c) \<and> \<not> (a = b \<and> b = c)"
  by (auto simp: rank_appears_def)

lemma is_straight_3_fst:
  assumes "length rs = 3"
  shows "\<exists>hi. is_straight_3 rs = Inr (spec_is_straight rs, hi)"
proof -
  have "length (sort rs) = 3" using assms by simp
  then obtain a b c where abc: "sort rs = [a, b, c]"
    using length3_ex by blast
  have s: "set rs = set [a, b, c]" using abc by (metis set_sort)
  have m: "mset rs = mset [a, b, c]" using abc by (metis mset_sort)
  have w: "set rs = {14, 2, 3} \<longleftrightarrow> mset rs = {#14, 2, 3#}"
    unfolding s m by (rule set3_wheel)
  show ?thesis
    unfolding straight_three[OF assms] spec_is_straight_def w Let_def by simp
qed

lemma hand_category_parsed:
  assumes "parse_card c1 = Inr (r1, s1)" "parse_card c2 = Inr (r2, s2)" "parse_card c3 = Inr (r3, s3)"
  shows "hand_category [c1, c2] c3 =
     Inr (let straight = spec_is_straight [r1, r2, r3]; flush = spec_flush [s1, s2, s3]
          in if straight \<and> flush then 5
             else if rank_appears 3 [r1, r2, r3] then 4
             else if straight then 3
             else if flush then 2
             else if rank_appears 2 [r1, r2, r3] then 1
             else 0)"
proof -
  obtain hi where hi: "is_straight_3 [r1, r2, r3] = Inr (spec_is_straight [r1, r2, r3], hi)"
    using is_straight_3_fst[of "[r1, r2, r3]"] by auto
  have fl: "(card (set [s1, s2, s3]) = 1) = spec_flush [s1, s2, s3]"
    unfolding flush_three by (simp add: spec_flush_def)
  have p: "map_result parse_card ([c1, c2] @ [c3]) = Inr [(r1, s1), (r2, s2), (r3, s3)]"
    using assms by (simp add: and_then_def)
  show ?thesis
    unfolding hand_category_def Let_def p and_then_Inr
    apply (simp only: list.map fst_conv snd_conv hi and_then_Inr case_prod_conv fl)
    apply (simp only: counts_three_3 counts_three_2 rank_appears_3 rank_appears_2 if_distrib[of Inr])
    done
qed

lemma hand_category_valid:
  assumes "valid_card c1" "valid_card c2" "valid_card c3"
  shows "hand_category [c1, c2] c3 = Inr (spec_category [c1, c2, c3])"
proof -
  note h = hand_category_parsed[OF parse_card_valid[OF assms(1)] parse_card_valid[OF assms(2)] parse_card_valid[OF assms(3)]]
  show ?thesis
    unfolding spec_category_def list.map Let_def using h unfolding Let_def .
qed

lemma sort_mset_cong: "mset xs = mset ys \<Longrightarrow> sort xs = sort (ys::int list)"
  by (metis properties_for_sort sorted_sort mset_sort)

lemma spec_is_straight_cong:
  "mset xs = mset ys \<Longrightarrow> spec_is_straight xs = spec_is_straight ys"
  unfolding spec_is_straight_def by (simp only: sort_mset_cong[of xs ys])

lemma rank_appears_cong:
  assumes "mset xs = mset ys"
  shows "rank_appears n xs = rank_appears n ys"
proof -
  have c: "count_list xs r = count_list ys r" for r
    using assms by (metis count_mset)
  have s: "set xs = set ys" using assms by (metis set_mset_mset)
  show ?thesis unfolding rank_appears_def list_ex_iff s by (simp only: c)
qed

lemma spec_flush_three: "spec_flush [s1, s2, s3] = (card (set [s1, s2, s3]) = 1)"
  unfolding flush_three by (simp add: spec_flush_def)

lemma spec_category_cong:
  assumes "mset ds = mset [c1, c2, c3]"
  shows "spec_category ds = spec_category [c1, c2, c3]"
proof -
  have "length ds = 3" using assms by (metis length_Cons list.size(3) size_mset numeral_3_eq_3)
  then obtain d1 d2 d3 where ds: "ds = [d1, d2, d3]" using length3_ex by blast
  have r: "mset (map spec_rank ds) = mset (map spec_rank [c1, c2, c3])"
    using assms by (metis mset_map)
  have "mset (map spec_suit ds) = mset (map spec_suit [c1, c2, c3])"
    using assms by (metis mset_map)
  then have "set (map spec_suit ds) = set (map spec_suit [c1, c2, c3])"
    by (metis set_mset_mset)
  then have f: "spec_flush (map spec_suit ds) = spec_flush (map spec_suit [c1, c2, c3])"
    unfolding ds list.map spec_flush_three by (simp only:)
  show ?thesis
    unfolding spec_category_def Let_def
    by (simp only: f spec_is_straight_cong[OF r] rank_appears_cong[OF r])
qed

text \<open>
  Claim C6. For three valid cards, any stored order of the same three cards (which two
  are the hole cards and which one is the table card, and the order of the hole cards)
  gives the same result of \<open>hand_category\<close>.
\<close>

theorem hand_category_symmetric:
  assumes "valid_card c1" "valid_card c2" "valid_card c3"
    and "mset (hole @ [table]) = mset [c1, c2, c3]"
  shows "hand_category hole table = hand_category [c1, c2] c3"
proof -
  have "length (hole @ [table]) = 3"
    using assms(4) by (metis length_Cons list.size(3) size_mset numeral_3_eq_3)
  then have "length hole = 2" by simp
  then obtain d1 d2 where hole: "hole = [d1, d2]"
    by (auto simp: eval_nat_numeral length_Suc_conv)
  have m: "mset [d1, d2, table] = mset [c1, c2, c3]" using assms(4) hole by simp
  then have "set [d1, d2, table] = set [c1, c2, c3]" by (metis set_mset_mset)
  then have v: "valid_card d1" "valid_card d2" "valid_card table"
    using assms(1-3) by auto
  show ?thesis
    unfolding hole hand_category_valid[OF v] hand_category_valid[OF assms(1-3)]
    by (simp only: spec_category_cong[OF m])
qed

theorem hand_category_symmetric_witness:
  "hand_category [''4H'', ''2C''] ''3D'' = hand_category [''2C'', ''3D''] ''4H''
   \<and> hand_category [''3D'', ''2C''] ''4H'' = hand_category [''2C'', ''3D''] ''4H''
   \<and> hand_category [''2C'', ''3D''] ''4H'' = Inr 3"
proof -
  have v: "valid_card ''2C''" "valid_card ''3D''" "valid_card ''4H''"
    by (simp_all add: valid_card_def RANKS_def SUITS_def)
  have a: "hand_category [''4H'', ''2C''] ''3D'' = hand_category [''2C'', ''3D''] ''4H''"
    by (rule hand_category_symmetric[OF v]) (simp add: add_mset_commute)
  have b: "hand_category [''3D'', ''2C''] ''4H'' = hand_category [''2C'', ''3D''] ''4H''"
    by (rule hand_category_symmetric[OF v]) (simp add: add_mset_commute)
  have c: "hand_category [''2C'', ''3D''] ''4H'' = Inr 3" by code_simp
  from a b c show ?thesis by blast
qed

text \<open>
  Claim C3. For three valid cards \<open>hand_category\<close> returns the category the fixed
  precedence gives: straight and flush 5, a rank three times 4, straight 3, flush 2, a
  rank twice 1, otherwise 0; and the six example hands of the specification get the
  categories 3, 5, 3, 4, 1 and 0.
\<close>

theorem hand_category_precedence:
  "(valid_card c1 \<and> valid_card c2 \<and> valid_card c3 \<longrightarrow>
      hand_category [c1, c2] c3 =
        Inr (if spec_is_straight (map spec_rank [c1, c2, c3]) \<and> spec_flush (map spec_suit [c1, c2, c3]) then 5
             else if rank_appears 3 (map spec_rank [c1, c2, c3]) then 4
             else if spec_is_straight (map spec_rank [c1, c2, c3]) then 3
             else if spec_flush (map spec_suit [c1, c2, c3]) then 2
             else if rank_appears 2 (map spec_rank [c1, c2, c3]) then 1
             else 0))
   \<and> hand_category [''2C'', ''3D''] ''4H'' = Inr 3
   \<and> hand_category [''QS'', ''KS''] ''AS'' = Inr 5
   \<and> hand_category [''AC'', ''2D''] ''3H'' = Inr 3
   \<and> hand_category [''7C'', ''7D''] ''7H'' = Inr 4
   \<and> hand_category [''9C'', ''9D''] ''2H'' = Inr 1
   \<and> hand_category [''2C'', ''5D''] ''9H'' = Inr 0"
proof -
  have g: "valid_card c1 \<and> valid_card c2 \<and> valid_card c3 \<longrightarrow>
      hand_category [c1, c2] c3 =
        Inr (if spec_is_straight (map spec_rank [c1, c2, c3]) \<and> spec_flush (map spec_suit [c1, c2, c3]) then 5
             else if rank_appears 3 (map spec_rank [c1, c2, c3]) then 4
             else if spec_is_straight (map spec_rank [c1, c2, c3]) then 3
             else if spec_flush (map spec_suit [c1, c2, c3]) then 2
             else if rank_appears 2 (map spec_rank [c1, c2, c3]) then 1
             else 0)"
  proof
    assume "valid_card c1 \<and> valid_card c2 \<and> valid_card c3"
    then have "hand_category [c1, c2] c3 = Inr (spec_category [c1, c2, c3])"
      by (simp only: hand_category_valid)
    then show "hand_category [c1, c2] c3 =
        Inr (if spec_is_straight (map spec_rank [c1, c2, c3]) \<and> spec_flush (map spec_suit [c1, c2, c3]) then 5
             else if rank_appears 3 (map spec_rank [c1, c2, c3]) then 4
             else if spec_is_straight (map spec_rank [c1, c2, c3]) then 3
             else if spec_flush (map spec_suit [c1, c2, c3]) then 2
             else if rank_appears 2 (map spec_rank [c1, c2, c3]) then 1
             else 0)"
      unfolding spec_category_def Let_def .
  qed
  have e1: "hand_category [''2C'', ''3D''] ''4H'' = Inr 3" by code_simp
  have e2: "hand_category [''QS'', ''KS''] ''AS'' = Inr 5" by code_simp
  have e3: "hand_category [''AC'', ''2D''] ''3H'' = Inr 3" by code_simp
  have e4: "hand_category [''7C'', ''7D''] ''7H'' = Inr 4" by code_simp
  have e5: "hand_category [''9C'', ''9D''] ''2H'' = Inr 1" by code_simp
  have e6: "hand_category [''2C'', ''5D''] ''9H'' = Inr 0" by code_simp
  from g e1 e2 e3 e4 e5 e6 show ?thesis by blast
qed

theorem hand_category_precedence_witness:
  "valid_card ''KH'' \<and> valid_card ''3H'' \<and> valid_card ''9H''
   \<and> \<not> spec_is_straight (map spec_rank [''KH'', ''3H'', ''9H''])
   \<and> spec_flush (map spec_suit [''KH'', ''3H'', ''9H''])
   \<and> hand_category [''KH'', ''3H''] ''9H'' = Inr 2"
proof -
  have v: "valid_card ''KH'' \<and> valid_card ''3H'' \<and> valid_card ''9H''"
    by (simp add: valid_card_def RANKS_def SUITS_def)
  have s: "\<not> spec_is_straight (map spec_rank [''KH'', ''3H'', ''9H''])" by code_simp
  have f: "spec_flush (map spec_suit [''KH'', ''3H'', ''9H''])" by code_simp
  have r: "\<not> rank_appears 3 (map spec_rank [''KH'', ''3H'', ''9H''])" by code_simp
  from hand_category_precedence[of "''KH''" "''3H''" "''9H''"] v
  have "hand_category [''KH'', ''3H''] ''9H'' =
        Inr (if spec_is_straight (map spec_rank [''KH'', ''3H'', ''9H'']) \<and> spec_flush (map spec_suit [''KH'', ''3H'', ''9H'']) then 5
             else if rank_appears 3 (map spec_rank [''KH'', ''3H'', ''9H'']) then 4
             else if spec_is_straight (map spec_rank [''KH'', ''3H'', ''9H'']) then 3
             else if spec_flush (map spec_suit [''KH'', ''3H'', ''9H'']) then 2
             else if rank_appears 2 (map spec_rank [''KH'', ''3H'', ''9H'']) then 1
             else 0)" by blast
  then have "hand_category [''KH'', ''3H''] ''9H'' = Inr 2"
    by (simp only: s f r if_False if_True simp_thms)
  with v s f show ?thesis by blast
qed

text \<open>
  Claim C7. On three ranks \<open>is_straight_3\<close> returns \<open>(True, r2)\<close> with \<open>r2\<close> the
  largest rank when the sorted ranks are consecutive, \<open>(True, 3)\<close> when they are not
  and the multiset of the ranks is \<open>{14, 2, 3}\<close>, and \<open>(False, 0)\<close> otherwise; for
  rank values between 2 and 14 the result is \<open>(True, 3)\<close> exactly for the multiset
  \<open>{14, 2, 3}\<close>.
\<close>

theorem is_straight_3_cases:
  assumes "length ranks = 3"
  shows "is_straight_3 ranks =
           Inr (let r = sort ranks in
                if r ! 0 + 1 = r ! 1 \<and> r ! 1 + 1 = r ! 2 then (True, r ! 2)
                else if mset ranks = {#14, 2, 3#} then (True, 3)
                else (False, 0))
         \<and> sort ranks ! 2 = Max (set ranks)
         \<and> ((\<forall>r \<in> set ranks. 2 \<le> r \<and> r \<le> 14) \<longrightarrow>
              (is_straight_3 ranks = Inr (True, 3) \<longleftrightarrow> mset ranks = {#14, 2, 3#}))"
proof -
  have "length (sort ranks) = 3" using assms by simp
  then obtain a b c where abc: "sort ranks = [a, b, c]"
    using length3_ex by blast
  have s: "set ranks = set [a, b, c]" using abc by (metis set_sort)
  have m: "mset ranks = mset [a, b, c]" using abc by (metis mset_sort)
  have w: "set ranks = {14, 2, 3} \<longleftrightarrow> mset ranks = {#14, 2, 3#}"
    unfolding s m by (rule set3_wheel)
  have "sorted [a, b, c]" using abc by (metis sorted_sort)
  then have le: "a \<le> b" "b \<le> c" by simp_all
  have p1: "is_straight_3 ranks =
           Inr (let r = sort ranks in
                if r ! 0 + 1 = r ! 1 \<and> r ! 1 + 1 = r ! 2 then (True, r ! 2)
                else if mset ranks = {#14, 2, 3#} then (True, 3)
                else (False, 0))"
    unfolding straight_three[OF assms] w ..
  have p2: "sort ranks ! 2 = Max (set ranks)"
    unfolding s abc using le by (simp add: max_def)
  have p3: "is_straight_3 ranks = Inr (True, 3) \<longleftrightarrow> mset ranks = {#14, 2, 3#}"
    if rng: "\<forall>r \<in> set ranks. 2 \<le> r \<and> r \<le> 14"
  proof
    assume "mset ranks = {#14, 2, 3#}"
    then have wh: "set ranks = {14, 2, 3}" using w by blast
    then have "a \<in> {14, 2, 3}" "b \<in> {14, 2, 3}" "c \<in> {14, 2, 3}" using s by auto
    moreover have "2 \<in> {a, b, c}" "14 \<in> {a, b, c}" using wh s by auto
    ultimately have "\<not> (a + 1 = b \<and> b + 1 = c)" using le by auto
    then show "is_straight_3 ranks = Inr (True, 3)"
      unfolding straight_three[OF assms] Let_def abc using wh by auto
  next
    assume r3: "is_straight_3 ranks = Inr (True, 3)"
    have "2 \<le> a" using rng s by simp
    then have "\<not> (a + 1 = b \<and> b + 1 = c \<and> c = 3)" by arith
    then show "mset ranks = {#14, 2, 3#}"
      using r3 unfolding p1 Let_def abc by (auto split: if_splits)
  qed
  from p1 p2 p3 show ?thesis by blast
qed

theorem is_straight_3_cases_witness:
  "length [14, 2, 3 :: int] = 3 \<and> is_straight_3 [14, 2, 3] = Inr (True, 3)
   \<and> is_straight_3 [13, 12, 14] = Inr (True, 14) \<and> is_straight_3 [2, 9, 5] = Inr (False, 0)"
proof -
  have l: "length [14, 2, 3 :: int] = 3" by simp
  have r: "\<forall>r \<in> set [14, 2, 3 :: int]. 2 \<le> r \<and> r \<le> 14" by simp
  have e: "mset [14, 2, 3 :: int] = {#14, 2, 3#}" by simp
  from is_straight_3_cases[OF l] r e have "is_straight_3 [14, 2, 3] = Inr (True, 3)"
    by blast
  moreover have "is_straight_3 [13, 12, 14] = Inr (True, 14)" by code_simp
  moreover have "is_straight_3 [2, 9, 5] = Inr (False, 0)" by code_simp
  ultimately show ?thesis using l by blast
qed

lemma valid_examples:
  "valid_card ''AS''" "valid_card ''KS''" "valid_card ''QS''"
  "valid_card ''9C''" "valid_card ''9D''" "valid_card ''2H''"
  by (simp_all add: valid_card_def RANKS_def SUITS_def)

section \<open>Properties of float rounding\<close>

lemma two_powi_pos: "0 < (2::rat) powi k"
  by (simp add: zero_less_power_int)

lemma two_powi_le: "k \<le> l \<Longrightarrow> (2::rat) powi k \<le> 2 powi l"
  by (rule power_int_increasing) simp_all

lemma two_powi_less: "k < l \<Longrightarrow> (2::rat) powi k < 2 powi l"
  by (rule power_int_strict_increasing) simp_all

lemma two_powi_le_D: "(2::rat) powi k \<le> 2 powi l \<Longrightarrow> k \<le> l"
  using two_powi_less[of l k] by (cases "k \<le> l") auto

lemma two_powi_less_D: "(2::rat) powi k < 2 powi l \<Longrightarrow> k < l"
  using two_powi_le[of l k] by (cases "k < l") auto

lemma two_powi_add: "(2::rat) powi (k + l) = 2 powi k * 2 powi l"
  by (rule power_int_add) simp

lemma two_powi_diff: "(2::rat) powi (k - l) = 2 powi k / 2 powi l"
  by (rule power_int_diff) simp

lemma two_powi_nat: "0 \<le> k \<Longrightarrow> (2::rat) powi k = of_int (2 ^ nat k)"
  by (simp add: power_int_def)

lemma bitlen_rat_bounds:
  assumes "0 < p"
  shows "(2::rat) powi (bitlen p - 1) \<le> of_int p" and "of_int p < (2::rat) powi (bitlen p)"
proof -
  have b: "2 ^ nat (bitlen p - 1) \<le> p" "p < 2 ^ nat (bitlen p)"
    using bitlen_bounds[OF assms] by simp_all
  have ge1: "1 \<le> bitlen p" using assms by (simp add: bitlen_alt_def)
  have "(2::rat) powi (bitlen p - 1) = of_int (2 ^ nat (bitlen p - 1))"
    using ge1 by (intro two_powi_nat) simp
  also have "\<dots> \<le> of_int p" using b(1) by (simp only: of_int_le_iff)
  finally show "(2::rat) powi (bitlen p - 1) \<le> of_int p" .
  have "(of_int p :: rat) < of_int (2 ^ nat (bitlen p))" using b(2) by (simp only: of_int_less_iff)
  also have "\<dots> = (2::rat) powi (bitlen p)"
    using ge1 by (intro two_powi_nat[symmetric]) simp
  finally show "of_int p < (2::rat) powi (bitlen p)" .
qed

lemma ilog2_bounds:
  assumes "0 < x"
  shows "2 powi (ilog2 x) \<le> x \<and> x < 2 powi (ilog2 x + 1)"
proof -
  obtain p q where pq: "quotient_of x = (p, q)" by (cases "quotient_of x") auto
  have q: "0 < q" using pq by (rule quotient_of_denom_pos)
  have x: "x = of_int p / of_int q" using pq by (rule quotient_of_div)
  have p: "0 < p" using assms q unfolding x by (simp add: zero_less_divide_iff)
  define e where "e = bitlen p - bitlen q"
  note bp = bitlen_rat_bounds[OF p] and bq = bitlen_rat_bounds[OF q]
  have qr: "(0::rat) < of_int q" using q by simp
  have up: "x < 2 powi (e + 1)"
  proof -
    have "x * 2 powi (bitlen q - 1) \<le> x * of_int q"
      using bq(1) assms by (intro mult_left_mono) simp_all
    also have "\<dots> = of_int p" using qr unfolding x by simp
    also have "\<dots> < 2 powi (bitlen p)" by (rule bp(2))
    also have "\<dots> = 2 powi (e + 1) * 2 powi (bitlen q - 1)"
      unfolding two_powi_add[symmetric] e_def by simp
    finally show ?thesis using two_powi_pos[of "bitlen q - 1"] by simp
  qed
  have lo: "2 powi (e - 1) \<le> x"
  proof -
    have "(2::rat) powi (e - 1) * of_int q \<le> 2 powi (e - 1) * 2 powi (bitlen q)"
      using bq(2) two_powi_pos[of "e - 1"] by (intro mult_left_mono) simp_all
    also have "\<dots> = 2 powi (bitlen p - 1)"
      unfolding two_powi_add[symmetric] e_def by simp
    also have "\<dots> \<le> of_int p" by (rule bp(1))
    also have "\<dots> = x * of_int q" using qr unfolding x by simp
    finally show ?thesis using qr by simp
  qed
  have il: "ilog2 x = (if 2 powi e \<le> x then e else e - 1)"
    unfolding ilog2_def pq e_def by (simp add: Let_def)
  show ?thesis
  proof (cases "2 powi e \<le> x")
    case True
    then show ?thesis using up il by simp
  next
    case False
    then show ?thesis using lo il by simp
  qed
qed

lemma ilog2_unique:
  assumes "2 powi k \<le> x" "x < 2 powi (k + 1)"
  shows "ilog2 x = k"
proof -
  have x: "0 < x" using assms(1) two_powi_pos[of k] by linarith
  note b = ilog2_bounds[OF x]
  have "2 powi (ilog2 x) < (2::rat) powi (k + 1)" using b assms by linarith
  then have 1: "ilog2 x < k + 1" by (rule two_powi_less_D)
  have "(2::rat) powi k < 2 powi (ilog2 x + 1)" using b assms by linarith
  then have 2: "k < ilog2 x + 1" by (rule two_powi_less_D)
  from 1 2 show ?thesis by simp
qed

lemma round_half_even_error: "\<bar>of_int (round_half_even y) - y\<bar> \<le> 1 / 2"
proof -
  have "of_int \<lfloor>y\<rfloor> \<le> y" "y < of_int \<lfloor>y\<rfloor> + 1" by linarith+
  then show ?thesis unfolding round_half_even_def Let_def by auto
qed

lemma round_half_even_le:
  assumes "y \<le> of_int m"
  shows "round_half_even y \<le> m"
proof (cases "y = of_int m")
  case True
  then show ?thesis unfolding round_half_even_def Let_def by simp
next
  case False
  then have "y < of_int m" using assms by simp
  then have "\<lfloor>y\<rfloor> < m" by (simp add: floor_less_iff)
  then show ?thesis unfolding round_half_even_def Let_def by auto
qed

lemma round_half_even_ge:
  assumes "of_int m \<le> y"
  shows "m \<le> round_half_even y"
proof -
  have "m \<le> \<lfloor>y\<rfloor>" using assms by (simp add: le_floor_iff)
  then show ?thesis unfolding round_half_even_def Let_def by auto
qed

lemma round_half_even_of_int: "round_half_even (of_int m) = m"
  unfolding round_half_even_def Let_def by simp

lemma fl_zero: "fl 0 = 0"
  by (simp add: fl_def)

lemma fl_unfold:
  assumes "x \<noteq> 0"
  shows "fl x = of_int (round_half_even (x / 2 powi (max (ilog2 \<bar>x\<bar>) (- 1022) - 52)))
                * 2 powi (max (ilog2 \<bar>x\<bar>) (- 1022) - 52)"
  using assms by (simp add: fl_def Let_def)

lemma fl_abs_le_pow2:
  assumes "\<bar>x\<bar> \<le> 2 powi k" "- 1022 \<le> k"
  shows "\<bar>fl x\<bar> \<le> 2 powi k"
proof (cases "x = 0")
  case True
  then show ?thesis using two_powi_pos[of k] by (simp add: fl_zero)
next
  case False
  define e where "e = max (ilog2 \<bar>x\<bar>) (- 1022)"
  define q :: rat where "q = 2 powi (e - 52)"
  have q: "0 < q" unfolding q_def by (rule two_powi_pos)
  have ax: "0 < \<bar>x\<bar>" using False by simp
  have "2 powi (ilog2 \<bar>x\<bar>) \<le> \<bar>x\<bar>" using ilog2_bounds[OF ax] by simp
  then have "(2::rat) powi (ilog2 \<bar>x\<bar>) \<le> 2 powi k" using assms(1) by linarith
  then have "ilog2 \<bar>x\<bar> \<le> k" by (rule two_powi_le_D)
  then have ek: "e \<le> k" unfolding e_def using assms(2) by simp
  define M where "M = (2::int) ^ nat (k - e + 52)"
  have M: "of_int M = (2::rat) powi (k - e + 52)"
    unfolding M_def using ek by (intro two_powi_nat[symmetric]) simp
  have Mq: "of_int M * q = 2 powi k"
    unfolding M q_def two_powi_add[symmetric] by simp
  have "\<bar>x\<bar> / q \<le> 2 powi k / q" using assms(1) q by (simp add: divide_right_mono)
  also have "\<dots> = of_int M" using q Mq[symmetric] by simp
  finally have b: "\<bar>x\<bar> / q \<le> of_int M" .
  have "x / q \<le> \<bar>x\<bar> / q" using q by (intro divide_right_mono) simp_all
  then have "x / q \<le> of_int M" using b by linarith
  then have u: "round_half_even (x / q) \<le> M" by (rule round_half_even_le)
  have "(- \<bar>x\<bar>) / q \<le> x / q" using q by (intro divide_right_mono) simp_all
  then have "- (\<bar>x\<bar> / q) \<le> x / q" by (simp only: minus_divide_left)
  then have "- of_int M \<le> x / q" using b by linarith
  then have "of_int (- M) \<le> x / q" by (simp only: of_int_minus)
  then have l: "- M \<le> round_half_even (x / q)" by (rule round_half_even_ge)
  have "\<bar>round_half_even (x / q)\<bar> \<le> M" using u l by linarith
  then have "\<bar>(of_int (round_half_even (x / q)) :: rat)\<bar> \<le> of_int M"
    by (metis of_int_abs of_int_le_iff)
  then have "\<bar>of_int (round_half_even (x / q)) * q\<bar> \<le> of_int M * q"
    using q by (simp add: abs_mult)
  then show ?thesis
    unfolding fl_unfold[OF False] e_def[symmetric] q_def[symmetric] Mq .
qed

lemma fl_nonneg:
  assumes "0 \<le> x"
  shows "0 \<le> fl x"
proof (cases "x = 0")
  case True
  then show ?thesis by (simp add: fl_zero)
next
  case False
  define q :: rat where "q = 2 powi (max (ilog2 \<bar>x\<bar>) (- 1022) - 52)"
  have q: "0 < q" unfolding q_def by (rule two_powi_pos)
  have "of_int 0 \<le> x / q" using assms q by simp
  then have "0 \<le> round_half_even (x / q)" by (rule round_half_even_ge)
  then show ?thesis
    unfolding fl_unfold[OF False] q_def[symmetric] using q by simp
qed

lemma fl_error:
  assumes "\<bar>x\<bar> \<le> 2 powi k" "- 1021 \<le> k"
  shows "\<bar>fl x - x\<bar> \<le> 2 powi (k - 54)"
proof (cases "x = 0")
  case True
  then show ?thesis using two_powi_pos[of "k - 54"] by (simp add: fl_zero)
next
  case False
  define e where "e = max (ilog2 \<bar>x\<bar>) (- 1022)"
  define q :: rat where "q = 2 powi (e - 52)"
  have q: "0 < q" unfolding q_def by (rule two_powi_pos)
  have flx: "fl x = of_int (round_half_even (x / q)) * q"
    unfolding fl_unfold[OF False] e_def[symmetric] q_def[symmetric] ..
  have ax: "0 < \<bar>x\<bar>" using False by simp
  show ?thesis
  proof (cases "\<bar>x\<bar> = 2 powi k")
    case True
    have "\<bar>x\<bar> < 2 powi (k + 1)" unfolding True by (rule two_powi_less) simp
    then have "ilog2 \<bar>x\<bar> = k" using True by (intro ilog2_unique) simp_all
    then have e: "e = k" unfolding e_def using assms(2) by simp
    have "\<bar>x\<bar> / q = 2 powi 52" unfolding True q_def e two_powi_diff using two_powi_pos[of k] by simp
    also have "\<dots> = of_int (2 ^ 52)" by (simp add: two_powi_nat)
    finally have a: "\<bar>x\<bar> / q = of_int (2 ^ 52)" .
    have "\<exists>m. x / q = of_int m"
    proof (cases "0 \<le> x")
      case True
      then show ?thesis using a by auto
    next
      case False
      then have "x / q = of_int (- (2 ^ 52))" using a by simp
      then show ?thesis by blast
    qed
    then obtain m where m: "x / q = of_int m" ..
    have "fl x = x" unfolding flx m round_half_even_of_int using m[symmetric] q by simp
    then show ?thesis using two_powi_pos[of "k - 54"] by simp
  next
    case False
    then have lt: "\<bar>x\<bar> < 2 powi k" using assms(1) by simp
    have "2 powi (ilog2 \<bar>x\<bar>) \<le> \<bar>x\<bar>" using ilog2_bounds[OF ax] by simp
    then have "(2::rat) powi (ilog2 \<bar>x\<bar>) < 2 powi k" using lt by linarith
    then have "ilog2 \<bar>x\<bar> < k" by (rule two_powi_less_D)
    then have ek: "e \<le> k - 1" unfolding e_def using assms(2) by simp
    have "q \<le> 2 powi (k - 53)" unfolding q_def using ek by (intro two_powi_le) simp
    then have q2: "q / 2 \<le> 2 powi (k - 54)"
      using two_powi_add[of "k - 54" 1] by simp
    have "fl x - x = (of_int (round_half_even (x / q)) - x / q) * q"
      unfolding flx using q by (simp add: algebra_simps)
    then have "\<bar>fl x - x\<bar> = \<bar>of_int (round_half_even (x / q)) - x / q\<bar> * q"
      using q by (simp add: abs_mult)
    also have "\<dots> \<le> (1 / 2) * q"
      using round_half_even_error[of "x / q"] q by (intro mult_right_mono) simp_all
    finally show ?thesis using q2 by simp
  qed
qed

lemma fl_unit:
  assumes "0 \<le> x" "x \<le> 1"
  shows "0 \<le> fl x" "fl x \<le> 1" "\<bar>fl x - x\<bar> \<le> 2 powi (- 54)"
proof -
  have a: "\<bar>x\<bar> \<le> 2 powi 0" using assms by simp
  show "0 \<le> fl x" using assms(1) by (rule fl_nonneg)
  have "\<bar>fl x\<bar> \<le> 2 powi 0" using a by (rule fl_abs_le_pow2) simp
  then show "fl x \<le> 1" by simp
  show "\<bar>fl x - x\<bar> \<le> 2 powi (- 54)" using fl_error[OF a] by simp
qed

section \<open>Properties of the band heuristic\<close>

lemma truediv_fraction:
  assumes "0 \<le> a" "a \<le> b" "0 < b"
  shows "truediv a b = Inr (fl (of_int a / of_int b))"
proof -
  have "0 \<le> (of_int a / of_int b :: rat)" "(of_int a / of_int b :: rat) \<le> 1"
    using assms by simp_all
  then have "\<bar>fl (of_int a / of_int b)\<bar> \<le> 1"
    using fl_unit(1,2)[of "of_int a / of_int b"] by simp
  moreover have "(1::rat) < 2 ^ 1024" by simp
  ultimately have "\<not> 2 ^ 1024 \<le> \<bar>fl (of_int a / of_int b)\<bar>" by linarith
  then show ?thesis unfolding truediv_def using assms(3) by simp
qed

lemma stats_or_default_nonneg:
  assumes "nonneg_stats state"
  shows "0 \<le> opp_fold (stats_or_default state)" "0 \<le> opp_call (stats_or_default state)"
    "0 \<le> opp_raise (stats_or_default state)"
  using assms unfolding nonneg_stats_def stats_or_default_def
  by (auto split: option.splits)

lemma template_rates:
  assumes "0 \<le> opp_fold opp" "0 \<le> opp_call opp" "0 \<le> opp_raise opp"
  shows "\<exists>fr rr. (if opp_fold opp + opp_call opp + opp_raise opp = 0 then Inr (0, 0)
          else and_then (truediv (opp_fold opp) (opp_fold opp + opp_call opp + opp_raise opp)) (\<lambda>opp_fold_rate.
                 and_then (truediv (opp_raise opp) (opp_fold opp + opp_call opp + opp_raise opp)) (\<lambda>opp_raise_rate.
                   Inr (opp_fold_rate, opp_raise_rate)))) = Inr (fr, rr :: pyfloat)"
proof (cases "opp_fold opp + opp_call opp + opp_raise opp = 0")
  case True
  then show ?thesis by simp
next
  case False
  then have t: "0 < opp_fold opp + opp_call opp + opp_raise opp" using assms by linarith
  have 1: "truediv (opp_fold opp) (opp_fold opp + opp_call opp + opp_raise opp)
      = Inr (fl (of_int (opp_fold opp) / of_int (opp_fold opp + opp_call opp + opp_raise opp)))"
    using assms t by (intro truediv_fraction) simp_all
  have 2: "truediv (opp_raise opp) (opp_fold opp + opp_call opp + opp_raise opp)
      = Inr (fl (of_int (opp_raise opp) / of_int (opp_fold opp + opp_call opp + opp_raise opp)))"
    using assms t by (intro truediv_fraction) simp_all
  show ?thesis using False unfolding 1 2 and_then_Inr by simp
qed

text \<open>
  Claim C10. For a well-formed state the band heuristic of player\_template.py returns an
  action; when the hand's category is 1 or more the action is CALL or RAISE, and the
  action is FOLD only when the category is 0.
\<close>

theorem template_folds_only_high_card:
  assumes "your_hole state = Some [c1, c2]" "table_card state = Some c3"
    and "valid_card c1" "valid_card c2" "valid_card c3"
    and "nonneg_stats state"
  shows "\<exists>category action.
           hand_category [c1, c2] c3 = Inr category
           \<and> decide_action_template state = Inr action
           \<and> (1 \<le> category \<longrightarrow> action = ''CALL'' \<or> action = ''RAISE'')
           \<and> (action = ''FOLD'' \<longrightarrow> category = 0)"
proof -
  define category where "category = spec_category [c1, c2, c3]"
  have hc: "hand_category [c1, c2] c3 = Inr category"
    unfolding category_def using assms(3-5) by (rule hand_category_valid)
  define opp where "opp = stats_or_default state"
  obtain fr rr where rates:
    "(if opp_fold opp + opp_call opp + opp_raise opp = 0 then Inr (0, 0)
      else and_then (truediv (opp_fold opp) (opp_fold opp + opp_call opp + opp_raise opp)) (\<lambda>opp_fold_rate.
             and_then (truediv (opp_raise opp) (opp_fold opp + opp_call opp + opp_raise opp)) (\<lambda>opp_raise_rate.
               Inr (opp_fold_rate, opp_raise_rate)))) = Inr (fr, rr :: pyfloat)"
    using template_rates[OF stats_or_default_nonneg[OF assms(6)]] unfolding opp_def by blast
  define action where "action =
     (if category \<ge> 3 then ''RAISE''
      else if category = 1 \<or> category = 2 then
        (if rr > lit (60 / 100) then ''CALL''
         else if fr > lit (50 / 100) then ''RAISE''
         else ''CALL'')
      else if category = 0 then
        (if rr > lit (60 / 100) then ''FOLD'' else ''CALL'')
      else ''CALL'')"
  have da: "decide_action_template state = Inr action"
    unfolding decide_action_template_def assms(1,2) subscript_def option.case and_then_Inr
      Let_def hc opp_def[symmetric] rates case_prod_conv action_def
    by (simp only: if_distrib[of Inr])
  have p1: "1 \<le> category \<longrightarrow> action = ''CALL'' \<or> action = ''RAISE''"
    unfolding action_def by (simp only: if_distrib[of "\<lambda>a. a = ''CALL'' \<or> a = ''RAISE''"]) auto
  have p2: "action = ''FOLD'' \<longrightarrow> category = 0"
    unfolding action_def by (auto split: if_splits)
  from hc da p1 p2 show ?thesis by blast
qed

lemma template_pair_aggressive: "decide_action_template state_pair_aggressive = Inr ''CALL''"
  by code_simp

lemma template_high_card_aggressive: "decide_action_template state_high_card_aggressive = Inr ''FOLD''"
  by code_simp

lemma category_pair: "hand_category [''9C'', ''9D''] ''2H'' = Inr 1"
  by code_simp

lemma category_high_card: "hand_category [''AS'', ''2S''] ''9D'' = Inr 0"
  by code_simp

theorem template_folds_only_high_card_witness:
  "your_hole state_pair_aggressive = Some [''9C'', ''9D'']
   \<and> table_card state_pair_aggressive = Some ''2H''
   \<and> nonneg_stats state_pair_aggressive
   \<and> hand_category [''9C'', ''9D''] ''2H'' = Inr 1
   \<and> decide_action_template state_pair_aggressive = Inr ''CALL''
   \<and> hand_category [''AS'', ''2S''] ''9D'' = Inr 0
   \<and> decide_action_template state_high_card_aggressive = Inr ''FOLD''"
proof -
  have h: "your_hole state_pair_aggressive = Some [''9C'', ''9D'']"
    "table_card state_pair_aggressive = Some ''2H''"
    by (simp_all add: state_pair_aggressive_def)
  have n: "nonneg_stats state_pair_aggressive"
    by (simp add: state_pair_aggressive_def nonneg_stats_def)
  obtain category action where
    c: "hand_category [''9C'', ''9D''] ''2H'' = Inr category"
    and a: "decide_action_template state_pair_aggressive = Inr action"
    and p: "1 \<le> category \<longrightarrow> action = ''CALL'' \<or> action = ''RAISE''"
    using template_folds_only_high_card[OF h valid_examples(4-6) n] by blast
  have "category = 1" using c unfolding category_pair by simp
  then have "action = ''CALL'' \<or> action = ''RAISE''" using p by simp
  moreover have "action = ''CALL''" using a unfolding template_pair_aggressive by simp
  ultimately have "decide_action_template state_pair_aggressive = Inr ''CALL''"
    using a by simp
  with h n category_pair category_high_card template_high_card_aggressive
  show ?thesis by (intro conjI)
qed

section \<open>Properties of the simulator\<close>

lemma deck_valid: "list_all valid_card deck"
  by code_simp

lemma deck_distinct: "distinct deck"
  by code_simp

lemma deck_length: "length deck = 52"
  by code_simp

lemma filter_not_in_length:
  assumes "distinct xs"
  shows "length xs \<le> length (filter (\<lambda>c. c \<notin> set ks) xs) + length ks"
proof -
  have d: "distinct (filter (\<lambda>c. c \<in> set ks) xs)" using assms by simp
  have "length (filter (\<lambda>c. c \<in> set ks) xs) = card (set (filter (\<lambda>c. c \<in> set ks) xs))"
    using d by (rule distinct_card[symmetric])
  also have "\<dots> \<le> card (set ks)" by (intro card_mono) auto
  also have "\<dots> \<le> length ks" by (rule card_length)
  finally have a: "length (filter (\<lambda>c. c \<in> set ks) xs) \<le> length ks" .
  have "length xs = length (filter (\<lambda>c. c \<in> set ks) xs) + length (filter (\<lambda>c. \<not> c \<in> set ks) xs)"
    by (rule sum_length_filter_compl[symmetric])
  then show ?thesis using a by simp
qed

lemma available_deck_size:
  assumes "length known_cards = 3"
  shows "49 \<le> length (filter (\<lambda>c. c \<notin> set known_cards) deck)"
  using filter_not_in_length[OF deck_distinct, of known_cards] assms deck_length by simp

lemma available_deck_valid:
  "c \<in> set (filter (\<lambda>c. c \<notin> set known_cards) deck) \<Longrightarrow> valid_card c"
  using deck_valid by (simp add: list_all_iff)

lemma sample_2_ok:
  assumes "2 \<le> length population"
  shows "\<exists>a b. sample_2 population draw = Inr [a, b] \<and> a \<in> set population \<and> b \<in> set population"
proof -
  define i where "i = fst draw mod length population"
  define rest where "rest = take i population @ drop (Suc i) population"
  define j where "j = snd draw mod length rest"
  have "0 < length population" using assms by linarith
  then have i: "i < length population" unfolding i_def by (rule mod_less_divisor)
  have "length rest = length population - 1" unfolding rest_def using i by simp
  then have "0 < length rest" using assms by linarith
  then have j: "j < length rest" unfolding j_def by (rule mod_less_divisor)
  have "set rest \<subseteq> set population"
    unfolding rest_def using set_take_subset[of i population] set_drop_subset[of "Suc i" population]
    by auto
  then have b: "rest ! j \<in> set population" using j nth_mem by blast
  have a: "population ! i \<in> set population" using i by simp
  have "sample_2 population draw = Inr [population ! i, rest ! j]"
    unfolding sample_2_def Let_def i_def[symmetric] rest_def[symmetric] j_def[symmetric]
    using assms by simp
  then show ?thesis using a b by blast
qed

lemma trial_ok:
  assumes "2 \<le> length available_deck" "\<forall>c \<in> set available_deck. valid_card c" "valid_card table"
  shows "\<exists>w t. trial my_category available_deck table draw (wins, ties) = Inr (w, t)
           \<and> wins \<le> w \<and> ties \<le> t \<and> w + t \<le> wins + ties + 1"
proof -
  obtain a b where s: "sample_2 available_deck draw = Inr [a, b]"
    and ab: "a \<in> set available_deck" "b \<in> set available_deck"
    using sample_2_ok[OF assms(1)] by blast
  have v: "valid_card a" "valid_card b" using ab assms(2) by auto
  have h: "hand_category [a, b] table = Inr (spec_category [a, b, table])"
    using v assms(3) by (rule hand_category_valid)
  show ?thesis
    unfolding trial_def s and_then_Inr h Let_def case_prod_conv
    by (cases "my_category > spec_category [a, b, table]";
        cases "my_category = spec_category [a, b, table]") simp_all
qed

lemma run_trials_ok:
  assumes "2 \<le> length available_deck" "\<forall>c \<in> set available_deck. valid_card c" "valid_card table"
  shows "\<exists>w t. run_trials my_category available_deck table draws (wins, ties) = Inr (w, t)
           \<and> wins \<le> w \<and> ties \<le> t \<and> w + t \<le> wins + ties + int (length draws)"
proof (induction draws arbitrary: wins ties)
  case Nil
  then show ?case by simp
next
  case (Cons d ds)
  obtain w1 t1 where 1: "trial my_category available_deck table d (wins, ties) = Inr (w1, t1)"
    and b1: "wins \<le> w1" "ties \<le> t1" "w1 + t1 \<le> wins + ties + 1"
    using trial_ok[OF assms] by blast
  obtain w t where 2: "run_trials my_category available_deck table ds (w1, t1) = Inr (w, t)"
    and b2: "w1 \<le> w" "t1 \<le> t" "w + t \<le> w1 + t1 + int (length ds)"
    using Cons.IH by blast
  have "run_trials my_category available_deck table (d # ds) (wins, ties) = Inr (w, t)"
    by (simp only: run_trials.simps 1 and_then_Inr 2)
  moreover have "wins \<le> w" "ties \<le> t" "w + t \<le> wins + ties + int (length (d # ds))"
    using b1 b2 by simp_all
  ultimately show ?case by blast
qed

lemma monte_carlo_sim_ok:
  assumes "valid_card c1" "valid_card c2" "valid_card c3" "0 < n"
  shows "\<exists>wins ties. 0 \<le> wins \<and> 0 \<le> ties \<and> wins + ties \<le> n
           \<and> monte_carlo_sim [c1, c2] c3 n rng =
               Inr (fl (of_int wins / of_int n),
                    fl (fl (1 - fl (of_int wins / of_int n)) - fl (of_int ties / of_int n)),
                    fl (of_int ties / of_int n))"
proof -
  define available_deck where "available_deck = filter (\<lambda>c. c \<notin> set ([c1, c2] @ [c3])) deck"
  have len: "2 \<le> length available_deck"
    unfolding available_deck_def using available_deck_size[of "[c1, c2] @ [c3]"] by simp
  have val: "\<forall>c \<in> set available_deck. valid_card c"
    unfolding available_deck_def using available_deck_valid by blast
  obtain wins ties where
    rt: "run_trials (spec_category [c1, c2, c3]) available_deck c3 (map rng [0..<nat n]) (0, 0) = Inr (wins, ties)"
    and b: "0 \<le> wins" "0 \<le> ties" "wins + ties \<le> 0 + 0 + int (length (map rng [0..<nat n]))"
    using run_trials_ok[OF len val assms(3), of "spec_category [c1, c2, c3]" "map rng [0..<nat n]" 0 0]
    by blast
  have sum: "wins + ties \<le> n" using b(3) assms(4) by simp
  have w: "truediv wins n = Inr (fl (of_int wins / of_int n))"
    using b(1,2) sum assms(4) by (intro truediv_fraction) simp_all
  have t: "truediv ties n = Inr (fl (of_int ties / of_int n))"
    using b(1,2) sum assms(4) by (intro truediv_fraction) simp_all
  have "monte_carlo_sim [c1, c2] c3 n rng =
               Inr (fl (of_int wins / of_int n),
                    fl (fl (1 - fl (of_int wins / of_int n)) - fl (of_int ties / of_int n)),
                    fl (of_int ties / of_int n))"
    unfolding monte_carlo_sim_def hand_category_valid[OF assms(1-3)] and_then_Inr Let_def
      available_deck_def[symmetric] rt case_prod_conv w t fsub_def ..
  then show ?thesis using b(1,2) sum by blast
qed

text \<open>
  Claim C5, as amended. For a valid hand, a valid table card and a positive trial count
  the simulator returns; the win and tie counts are non-negative and together at most
  the trial count; the win and tie values are these counts divided by the trial count,
  rounded to a float, and lie between 0 and 1; the loss value is the float result of
  \<open>1 - prob_win - prob_tie\<close>, at least \<open>- (1 / 2 ^ 52)\<close> and at most 1; and the three
  returned values add up to 1 within \<open>1 / 2 ^ 53\<close>.
\<close>

theorem monte_carlo_sim_probabilities:
  assumes "valid_card c1" "valid_card c2" "valid_card c3" "0 < n"
  shows "\<exists>wins ties prob_win prob_lose prob_tie.
           monte_carlo_sim [c1, c2] c3 n rng = Inr (prob_win, prob_lose, prob_tie)
           \<and> 0 \<le> wins \<and> 0 \<le> ties \<and> wins + ties \<le> n
           \<and> prob_win = fl (of_int wins / of_int n)
           \<and> prob_tie = fl (of_int ties / of_int n)
           \<and> prob_lose = fl (fl (1 - prob_win) - prob_tie)
           \<and> 0 \<le> prob_win \<and> prob_win \<le> 1
           \<and> 0 \<le> prob_tie \<and> prob_tie \<le> 1
           \<and> - (1 / 2 ^ 52) \<le> prob_lose \<and> prob_lose \<le> 1
           \<and> \<bar>prob_win + prob_tie + prob_lose - 1\<bar> \<le> 1 / 2 ^ 53"
proof -
  obtain wins ties where c: "0 \<le> wins" "0 \<le> ties" "wins + ties \<le> n"
    and m: "monte_carlo_sim [c1, c2] c3 n rng =
               Inr (fl (of_int wins / of_int n),
                    fl (fl (1 - fl (of_int wins / of_int n)) - fl (of_int ties / of_int n)),
                    fl (of_int ties / of_int n))"
    using monte_carlo_sim_ok[OF assms] by blast
  define x :: rat where "x = of_int wins / of_int n"
  define y :: rat where "y = of_int ties / of_int n"
  define a where "a = fl x"
  define b where "b = fl y"
  define cc where "cc = fl (1 - a)"
  define l where "l = fl (cc - b)"
  have e54: "(2::rat) powi (- 54) = 1 / 2 ^ 54" by (simp add: power_int_def field_simps)
  have e52: "(2::rat) powi (- 52) = 1 / 2 ^ 52" by (simp add: power_int_def field_simps)
  have nr: "(0::rat) < of_int n" using assms(4) by simp
  have x: "0 \<le> x" "x \<le> 1" unfolding x_def using c nr by simp_all
  have y: "0 \<le> y" "y \<le> 1" unfolding y_def using c nr by simp_all
  have "of_int wins + of_int ties \<le> (of_int n :: rat)"
    using c(3) by (metis of_int_add of_int_le_iff)
  then have xy: "x + y \<le> 1" unfolding x_def y_def using nr
    by (simp add: add_divide_distrib[symmetric])
  have a: "0 \<le> a" "a \<le> 1" "\<bar>a - x\<bar> \<le> 1 / 2 ^ 54"
    unfolding a_def using fl_unit[OF x] e54 by simp_all
  have b: "0 \<le> b" "b \<le> 1" "\<bar>b - y\<bar> \<le> 1 / 2 ^ 54"
    unfolding b_def using fl_unit[OF y] e54 by simp_all
  have "0 \<le> 1 - a" "1 - a \<le> 1" using a by simp_all
  then have cc: "0 \<le> cc" "cc \<le> 1" "\<bar>cc - (1 - a)\<bar> \<le> 1 / 2 ^ 54"
    unfolding cc_def using fl_unit[of "1 - a"] e54 by simp_all
  have d1: "\<bar>cc - b\<bar> \<le> 2 powi 0" using cc b by simp
  have l1: "\<bar>l\<bar> \<le> 1" unfolding l_def using fl_abs_le_pow2[OF d1] by simp
  have le: "\<bar>l - (cc - b)\<bar> \<le> 1 / 2 ^ 54"
    unfolding l_def using fl_error[OF d1] e54 by simp
  have lower: "- (3 / 2 ^ 54) \<le> cc - b" using a(3) b(3) cc(3) xy by linarith
  have llow: "- (1 / 2 ^ 52) \<le> l"
  proof (cases "0 \<le> cc - b")
    case True
    then have "0 \<le> l" unfolding l_def by (rule fl_nonneg)
    then show ?thesis by simp
  next
    case False
    then have "\<bar>cc - b\<bar> \<le> 3 / 2 ^ 54" using lower by linarith
    also have "\<dots> \<le> (2::rat) powi (- 52)" unfolding e52 by simp
    finally have "\<bar>l\<bar> \<le> 2 powi (- 52)" unfolding l_def by (rule fl_abs_le_pow2) simp
    then show ?thesis unfolding e52 by linarith
  qed
  have "a + b + l - 1 = (l - (cc - b)) + (cc - (1 - a))" by simp
  then have "\<bar>a + b + l - 1\<bar> \<le> \<bar>l - (cc - b)\<bar> + \<bar>cc - (1 - a)\<bar>"
    by (simp only: abs_triangle_ineq)
  also have "\<dots> \<le> 1 / 2 ^ 54 + 1 / 2 ^ 54" using le cc(3) by (rule add_mono)
  also have "\<dots> = 1 / 2 ^ 53" by simp
  finally have sum: "\<bar>a + b + l - 1\<bar> \<le> 1 / 2 ^ 53" .
  have "monte_carlo_sim [c1, c2] c3 n rng = Inr (a, l, b)"
    unfolding m a_def b_def l_def cc_def x_def y_def ..
  moreover have "a = fl (of_int wins / of_int n)" "b = fl (of_int ties / of_int n)"
    "l = fl (fl (1 - a) - b)"
    unfolding a_def b_def l_def cc_def x_def y_def by simp_all
  ultimately show ?thesis using c a(1,2) b(1,2) llow l1 sum
    by (intro exI[of _ wins] exI[of _ ties] exI[of _ a] exI[of _ l] exI[of _ b]) simp
qed

lemma sim_nine_wins_one_tie:
  "monte_carlo_sim [''AS'', ''KS''] ''QS'' 10 draws_nine_wins_one_tie =
     Inr (8106479329266893 / 9007199254740992, - (1 / 36028797018963968),
          3602879701896397 / 36028797018963968)"
  by code_simp

theorem monte_carlo_sim_probabilities_witness:
  "valid_card ''AS'' \<and> valid_card ''KS'' \<and> valid_card ''QS'' \<and> (0::int) < 10
   \<and> monte_carlo_sim [''AS'', ''KS''] ''QS'' 10 draws_nine_wins_one_tie =
        Inr (8106479329266893 / 9007199254740992, - (1 / 36028797018963968),
             3602879701896397 / 36028797018963968)
   \<and> - (1 / 2 ^ 52) \<le> - (1 / 36028797018963968 :: rat)
   \<and> \<bar>8106479329266893 / 9007199254740992 + 3602879701896397 / 36028797018963968
        + - (1 / 36028797018963968) - (1::rat)\<bar> \<le> 1 / 2 ^ 53"
proof -
  have n: "(0::int) < 10" by simp
  obtain wins ties prob_win prob_lose prob_tie where
    m: "monte_carlo_sim [''AS'', ''KS''] ''QS'' 10 draws_nine_wins_one_tie = Inr (prob_win, prob_lose, prob_tie)"
    and l: "- (1 / 2 ^ 52) \<le> prob_lose"
    and s: "\<bar>prob_win + prob_tie + prob_lose - 1\<bar> \<le> 1 / 2 ^ 53"
    using monte_carlo_sim_probabilities[OF valid_examples(1-3) n, of draws_nine_wins_one_tie]
    by blast
  have e: "prob_win = 8106479329266893 / 9007199254740992"
    "prob_lose = - (1 / 36028797018963968)"
    "prob_tie = 3602879701896397 / 36028797018963968"
    using m unfolding sim_nine_wins_one_tie by simp_all
  show ?thesis
    using valid_examples(1-3) n sim_nine_wins_one_tie l s unfolding e by (intro conjI)
qed

text \<open>
  Claim C5 as stated fails: with ten trials of which nine are wins and one is a tie, the
  returned values are 0.9, \<open>1 - 0.9 - 0.1\<close> and 0.1 as floats, and the loss value is
  negative.
\<close>

theorem monte_carlo_sim_negative_loss:
  "monte_carlo_sim [''AS'', ''KS''] ''QS'' 10 draws_nine_wins_one_tie =
     Inr (8106479329266893 / 9007199254740992, - (1 / 36028797018963968),
          3602879701896397 / 36028797018963968)
   \<and> - (1 / 36028797018963968) < (0::rat)"
  using sim_nine_wins_one_tie by simp

text \<open>
  Claim C2, what the code does. With two trials, one a win and one a tie, the counts are
  \<open>(1, 1)\<close> and the returned triple is \<open>(1/2, 0, 1/2)\<close>: the second component is the
  loss value 0 and the third is the tie value 1/2.
\<close>

theorem monte_carlo_sim_returns_win_lose_tie:
  "run_trials 5 (filter (\<lambda>c. c \<notin> set [''AS'', ''KS'', ''QS'']) deck) ''QS''
      (map draws_one_win_one_tie [0..<2]) (0, 0) = Inr (1, 1)
   \<and> monte_carlo_sim [''AS'', ''KS''] ''QS'' 2 draws_one_win_one_tie = Inr (1 / 2, 0, 1 / 2)"
  by code_simp

text \<open>
  Claim C1, what the code does. For a well-formed state whose opponent counts add up to
  zero (or whose statistics are absent) the rates 0.33 and 0.33 are assigned, the call
  rate is left unbound, and \<open>decide_action\<close> raises UnboundLocalError instead of
  returning a label.
\<close>

theorem decide_action_no_observations_raises:
  assumes "your_hole state = Some [c1, c2]" "table_card state = Some c3"
    and "valid_card c1" "valid_card c2" "valid_card c3"
    and "opp_fold (stats_or_default state) + opp_call (stats_or_default state)
           + opp_raise (stats_or_default state) = 0"
  shows "opponent_rates (stats_or_default state) = Inr (lit (33 / 100), lit (33 / 100), None)
         \<and> decide_action state rng = Inl UnboundLocalError"
proof -
  have r: "opponent_rates (stats_or_default state) = Inr (lit (33 / 100), lit (33 / 100), None)"
    unfolding opponent_rates_def Let_def using assms(6) by simp
  obtain wins ties where
    m: "monte_carlo_sim [c1, c2] c3 10000 rng =
               Inr (fl (of_int wins / of_int 10000),
                    fl (fl (1 - fl (of_int wins / of_int 10000)) - fl (of_int ties / of_int 10000)),
                    fl (of_int ties / of_int 10000))"
    using monte_carlo_sim_ok[OF assms(3-5), of 10000 rng] by auto
  have "decide_action state rng = Inl UnboundLocalError"
    unfolding decide_action_def assms(1,2) subscript_def option.case and_then_Inr Let_def r
      case_prod_conv hand_category_valid[OF assms(3-5)] m ev_call_of_def load_local_def
    by (simp only: and_then_def sum.case)
  with r show ?thesis ..
qed

theorem decide_action_no_observations_raises_witness:
  "your_hole state_no_observations = Some [''AS'', ''KS'']
   \<and> table_card state_no_observations = Some ''QS''
   \<and> opp_fold (stats_or_default state_no_observations)
      + opp_call (stats_or_default state_no_observations)
      + opp_raise (stats_or_default state_no_observations) = 0
   \<and> decide_action state_no_observations (\<lambda>k. (k, 2 * k)) = Inl UnboundLocalError"
proof -
  have h: "your_hole state_no_observations = Some [''AS'', ''KS'']"
    "table_card state_no_observations = Some ''QS''"
    by (simp_all add: state_no_observations_def)
  have z: "opp_fold (stats_or_default state_no_observations)
      + opp_call (stats_or_default state_no_observations)
      + opp_raise (stats_or_default state_no_observations) = 0"
    by (simp add: state_no_observations_def stats_or_default_def)
  note t = decide_action_no_observations_raises[OF h valid_examples(1-3) z, of "\<lambda>k. (k, 2 * k)"]
  from h z conjunct2[OF t] show ?thesis by (intro conjI)
qed

section \<open>Properties of the policy and the adapter\<close>

lemma choose_action_label:
  "choose_action category prob_win opp_fold_rate opp_raise_rate ev_fold ev_call ev_raise
     \<in> {''FOLD'', ''CALL'', ''RAISE''}"
  unfolding choose_action_def
  by (simp only: if_distrib[of "\<lambda>a. a \<in> {''FOLD'', ''CALL'', ''RAISE''}"]) simp

lemma opponent_rates_observed:
  assumes "0 \<le> opp_fold opp" "0 \<le> opp_call opp" "0 \<le> opp_raise opp"
    and "opp_fold opp + opp_call opp + opp_raise opp \<noteq> 0"
  shows "\<exists>fr rr cr. opponent_rates opp = Inr (fr, rr, Some cr)"
proof -
  have t: "0 < opp_fold opp + opp_call opp + opp_raise opp" using assms by linarith
  have 1: "truediv (opp_fold opp) (opp_fold opp + opp_call opp + opp_raise opp)
      = Inr (fl (of_int (opp_fold opp) / of_int (opp_fold opp + opp_call opp + opp_raise opp)))"
    using assms t by (intro truediv_fraction) simp_all
  have 2: "truediv (opp_raise opp) (opp_fold opp + opp_call opp + opp_raise opp)
      = Inr (fl (of_int (opp_raise opp) / of_int (opp_fold opp + opp_call opp + opp_raise opp)))"
    using assms t by (intro truediv_fraction) simp_all
  show ?thesis
    unfolding opponent_rates_def Let_def 1 2 and_then_Inr using assms(4) by simp
qed

lemma decide_action_observed_returns_label:
  assumes "your_hole state = Some [c1, c2]" "table_card state = Some c3"
    and "valid_card c1" "valid_card c2" "valid_card c3"
    and "nonneg_stats state"
    and "opp_fold (stats_or_default state) + opp_call (stats_or_default state)
           + opp_raise (stats_or_default state) \<noteq> 0"
  shows "\<exists>action. decide_action state rng = Inr action \<and> action \<in> {''FOLD'', ''CALL'', ''RAISE''}"
proof -
  obtain fr rr cr where r: "opponent_rates (stats_or_default state) = Inr (fr, rr, Some cr)"
    using opponent_rates_observed[OF stats_or_default_nonneg[OF assms(6)] assms(7)] by blast
  obtain wins ties where
    m: "monte_carlo_sim [c1, c2] c3 10000 rng =
               Inr (fl (of_int wins / of_int 10000),
                    fl (fl (1 - fl (of_int wins / of_int 10000)) - fl (of_int ties / of_int 10000)),
                    fl (of_int ties / of_int 10000))"
    using monte_carlo_sim_ok[OF assms(3-5), of 10000 rng] by auto
  have "\<exists>pw ef ec er. decide_action state rng =
      Inr (choose_action (spec_category [c1, c2, c3]) pw fr rr ef ec er)"
    unfolding decide_action_def assms(1,2) subscript_def option.case and_then_Inr Let_def r
      case_prod_conv hand_category_valid[OF assms(3-5)] m ev_call_of_def ev_raise_of_def
      load_local_def
    by blast
  then show ?thesis using choose_action_label by metis
qed

text \<open>
  Claim C4. In the decision tree, for a category of 4 or 5 and a win probability above
  0.85 the action is RAISE, whatever the opponent rates and the three expected values
  are.
\<close>

theorem choose_action_strong_raise:
  assumes "category = 4 \<or> category = 5" and "prob_win > lit (85 / 100)"
  shows "choose_action category prob_win opp_fold_rate opp_raise_rate ev_fold ev_call ev_raise = ''RAISE''"
proof -
  have "category \<ge> 4" using assms(1) by auto
  then show ?thesis
    unfolding choose_action_def using assms(2) by (simp only: if_True simp_thms)
qed

theorem choose_action_strong_raise_witness:
  "lit (95 / 100) > lit (85 / 100)
   \<and> choose_action 5 (lit (95 / 100)) 0 1 (- 1) 3 (- 3) = ''RAISE''"
proof -
  have h: "lit (95 / 100) > lit (85 / 100)" by code_simp
  have c: "(5::int) = 4 \<or> (5::int) = 5" by simp
  show ?thesis
    using h choose_action_strong_raise[OF c h, of 0 1 "- 1" 3 "- 3"] by (rule conjI)
qed

text \<open>
  Claim C8. Whatever string \<open>decide_action\<close> returns, the adapter's safety check yields
  one of the three labels: a valid label is kept and anything else becomes CALL; so
  every action \<open>main\<close> emits is one of FOLD, CALL and RAISE.
\<close>

theorem safety_check_valid:
  "safety_check action \<in> {''FOLD'', ''CALL'', ''RAISE''}
   \<and> (action \<in> {''FOLD'', ''CALL'', ''RAISE''} \<longrightarrow> safety_check action = action)
   \<and> (action \<notin> {''FOLD'', ''CALL'', ''RAISE''} \<longrightarrow> safety_check action = ''CALL'')
   \<and> (main parsed rng = Inr emitted \<longrightarrow> emitted \<in> {''FOLD'', ''CALL'', ''RAISE''})"
proof -
  have a: "safety_check action \<in> {''FOLD'', ''CALL'', ''RAISE''}" for action
    unfolding safety_check_def by (cases "action \<in> {''FOLD'', ''CALL'', ''RAISE''}") simp_all
  have b: "action \<in> {''FOLD'', ''CALL'', ''RAISE''} \<longrightarrow> safety_check action = action"
    unfolding safety_check_def by simp
  have c: "action \<notin> {''FOLD'', ''CALL'', ''RAISE''} \<longrightarrow> safety_check action = ''CALL''"
    unfolding safety_check_def by simp
  have d: "main parsed rng = Inr emitted \<longrightarrow> emitted \<in> {''FOLD'', ''CALL'', ''RAISE''}"
  proof
    assume m: "main parsed rng = Inr emitted"
    then obtain act where "emitted = safety_check act"
      unfolding main_def Let_def and_then_def by (auto split: sum.splits)
    then show "emitted \<in> {''FOLD'', ''CALL'', ''RAISE''}" using a by simp
  qed
  from a b c d show ?thesis by (intro conjI)
qed

theorem safety_check_valid_witness:
  "''ALLIN'' \<notin> {''FOLD'', ''CALL'', ''RAISE''} \<and> safety_check ''ALLIN'' = ''CALL''
   \<and> ''RAISE'' \<in> {''FOLD'', ''CALL'', ''RAISE''} \<and> safety_check ''RAISE'' = ''RAISE''
   \<and> (\<exists>emitted. main (Some state_round_1) (\<lambda>k. (k, 2 * k)) = Inr emitted
         \<and> emitted \<in> {''FOLD'', ''CALL'', ''RAISE''})"
proof -
  have n: "''ALLIN'' \<notin> {''FOLD'', ''CALL'', ''RAISE''}" by simp
  have y: "''RAISE'' \<in> {''FOLD'', ''CALL'', ''RAISE''}" by simp
  note t1 = safety_check_valid[of "''ALLIN''" None "\<lambda>k. (0, 0)" "''CALL''"]
  note t2 = safety_check_valid[of "''RAISE''" None "\<lambda>k. (0, 0)" "''CALL''"]
  have 1: "safety_check ''ALLIN'' = ''CALL''"
    by (rule mp[OF conjunct1[OF conjunct2[OF conjunct2[OF t1]]] n])
  have 2: "safety_check ''RAISE'' = ''RAISE''"
    by (rule mp[OF conjunct1[OF conjunct2[OF t2]] y])
  have w: "your_hole state_round_1 = Some [''AS'', ''KS'']" "table_card state_round_1 = Some ''QS''"
    by (simp_all add: state_round_1_def)
  have s: "nonneg_stats state_round_1"
    by (simp add: state_round_1_def nonneg_stats_def)
  have t: "opp_fold (stats_or_default state_round_1) + opp_call (stats_or_default state_round_1)
           + opp_raise (stats_or_default state_round_1) \<noteq> 0"
    by (simp add: state_round_1_def stats_or_default_def)
  obtain action where a: "decide_action state_round_1 (\<lambda>k. (k, 2 * k)) = Inr action"
    using decide_action_observed_returns_label[OF w valid_examples(1-3) s t] by blast
  have m: "main (Some state_round_1) (\<lambda>k. (k, 2 * k)) = Inr (safety_check action)"
    unfolding main_def Let_def option.case a and_then_Inr ..
  note t3 = safety_check_valid[of "''CALL''" "Some state_round_1" "\<lambda>k. (k, 2 * k)" "safety_check action"]
  have "safety_check action \<in> {''FOLD'', ''CALL'', ''RAISE''}"
    by (rule mp[OF conjunct2[OF conjunct2[OF conjunct2[OF t3]]] m])
  with m have 3: "\<exists>emitted. main (Some state_round_1) (\<lambda>k. (k, 2 * k)) = Inr emitted
         \<and> emitted \<in> {''FOLD'', ''CALL'', ''RAISE''}" by blast
  from n 1 y 2 3 show ?thesis by (intro conjI)
qed

text \<open>
  Claim C9. Two states with the same hole cards, table card and opponent statistics get
  the same result from \<open>decide_action\<close> under the same random draws, whatever their
  round numbers and rules fields are.
\<close>

theorem decide_action_ignores_round_and_rules:
  assumes "your_hole s1 = your_hole s2" "table_card s1 = table_card s2"
    "opponent_stats s1 = opponent_stats s2"
  shows "decide_action s1 rng = decide_action s2 rng"
  using assms unfolding decide_action_def stats_or_default_def Let_def by simp

theorem decide_action_ignores_round_and_rules_witness:
  "your_hole state_round_1 = your_hole state_round_250
   \<and> table_card state_round_1 = table_card state_round_250
   \<and> opponent_stats state_round_1 = opponent_stats state_round_250
   \<and> round_num state_round_1 \<noteq> round_num state_round_250
   \<and> rules state_round_1 \<noteq> rules state_round_250
   \<and> (\<exists>action. decide_action state_round_1 (\<lambda>k. (k, 2 * k)) = Inr action
         \<and> decide_action state_round_250 (\<lambda>k. (k, 2 * k)) = Inr action
         \<and> action \<in> {''FOLD'', ''CALL'', ''RAISE''})"
proof -
  have h: "your_hole state_round_1 = your_hole state_round_250"
    "table_card state_round_1 = table_card state_round_250"
    "opponent_stats state_round_1 = opponent_stats state_round_250"
    by (simp_all add: state_round_1_def state_round_250_def)
  have d: "round_num state_round_1 \<noteq> round_num state_round_250"
    "rules state_round_1 \<noteq> rules state_round_250"
    by (simp_all add: state_round_1_def state_round_250_def)
  have w: "your_hole state_round_1 = Some [''AS'', ''KS'']" "table_card state_round_1 = Some ''QS''"
    by (simp_all add: state_round_1_def)
  have n: "nonneg_stats state_round_1"
    by (simp add: state_round_1_def nonneg_stats_def)
  have t: "opp_fold (stats_or_default state_round_1) + opp_call (stats_or_default state_round_1)
           + opp_raise (stats_or_default state_round_1) \<noteq> 0"
    by (simp add: state_round_1_def stats_or_default_def)
  obtain action where a: "decide_action state_round_1 (\<lambda>k. (k, 2 * k)) = Inr action"
    and l: "action \<in> {''FOLD'', ''CALL'', ''RAISE''}"
    using decide_action_observed_returns_label[OF w valid_examples(1-3) n t] by blast
  have "decide_action state_round_250 (\<lambda>k. (k, 2 * k)) = Inr action"
    using decide_action_ignores_round_and_rules[OF h, of "\<lambda>k. (k, 2 * k)"] a by simp
  with a l have "\<exists>action. decide_action state_round_1 (\<lambda>k. (k, 2 * k)) = Inr action
         \<and> decide_action state_round_250 (\<lambda>k. (k, 2 * k)) = Inr action
         \<and> action \<in> {''FOLD'', ''CALL'', ''RAISE''}" by blast
  with h d show ?thesis by (intro conjI)
qed

end
